theory Spec2Isabelle
  imports Main "HOL-Library.Word"
begin

unbundle bit_operations_syntax

section \<open>Data model of package uuid\<close>

text \<open>
  Go's \<open>byte\<close> is an 8-bit word. \<open>type UUID [16]byte\<close> is modelled as a list of
  bytes; the array type fixes its length at 16, which theorems state as the hypothesis
  \<open>length u = 16\<close>. \<open>Version\<close> and \<open>Variant\<close> are both \<open>byte\<close> in the source.
\<close>

type_synonym byte = "8 word"
type_synonym UUID = "byte list"
type_synonym Version = byte
type_synonym Variant = byte

definition VersionUnknown :: Version where "VersionUnknown = 0"
definition VersionTimeBased :: Version where "VersionTimeBased = 1"
definition VersionDCESecurity :: Version where "VersionDCESecurity = 2"
definition VersionNameBasedMD5 :: Version where "VersionNameBasedMD5 = 3"
definition VersionRandom :: Version where "VersionRandom = 4"
definition VersionNameBasedSHA1 :: Version where "VersionNameBasedSHA1 = 5"

definition VariantNCS :: Variant where "VariantNCS = 0"
definition VariantRFC4122 :: Variant where "VariantRFC4122 = 1"
definition VariantMicrosoft :: Variant where "VariantMicrosoft = 2"
definition VariantFuture :: Variant where "VariantFuture = 3"

text \<open>\<open>var Nil = UUID{}\<close>: the zero value of the array type.\<close>

definition Nil_UUID :: UUID where
  "Nil_UUID = replicate 16 0"

subsection \<open>Errors\<close>

text \<open>
  The errors of \<open>encoding/hex\<close>: \<open>InvalidByteError\<close> carries the offending byte,
  \<open>ErrLength\<close> reports an odd-length input.
\<close>

datatype hex_error = InvalidByteError char | ErrLength

text \<open>
  The package builds its errors with \<open>fmt.Errorf\<close>; each constructor stands for one
  format string and carries the arguments formatted into it:
  \<^item> \<open>InvalidUUIDLength n\<close> for \<open>"invalid UUID length: %d"\<close>,
  \<^item> \<open>InvalidUUIDFormat e\<close> for \<open>"invalid UUID format: %v"\<close>,
  \<^item> \<open>InvalidUUIDByteLength n\<close> for \<open>"invalid UUID byte length: %d"\<close>,
  \<^item> \<open>CannotScan t\<close> for \<open>"cannot scan %T into UUID"\<close>, \<open>t\<close> the name of the dynamic type.
  \<open>ExternalError m\<close> is an error made outside the package and handed through unchanged
  (by \<open>crypto/rand\<close> or \<open>encoding/json\<close>).
\<close>

datatype error =
    InvalidUUIDLength nat
  | InvalidUUIDFormat hex_error
  | InvalidUUIDByteLength nat
  | CannotScan string
  | ExternalError string

text \<open>
  In the words of the specification, \<open>InvalidUUIDLength\<close> is the \<open>FormatError\<close> of a
  length mismatch, \<open>InvalidUUIDFormat\<close> the \<open>FormatError\<close> of an invalid hex digit, and
  an \<open>UnsupportedInputError\<close> is a scan input of an unrecognised shape.
\<close>

fun is_UnsupportedInputError :: "error \<Rightarrow> bool" where
  "is_UnsupportedInputError (CannotScan _) = True"
| "is_UnsupportedInputError _ = False"

section \<open>Library functions used by the package\<close>

subsection \<open>Slices\<close>

text \<open>\<open>u[lo:hi]\<close> and the built-in \<open>copy(dst, src)\<close>, which copies
  \<open>min (len dst) (len src)\<close> elements and leaves the rest of \<open>dst\<close> alone.\<close>

definition subslice :: "'a list \<Rightarrow> nat \<Rightarrow> nat \<Rightarrow> 'a list" where
  "subslice xs lo hi = take (hi - lo) (drop lo xs)"

definition copy :: "'a list \<Rightarrow> 'a list \<Rightarrow> 'a list" where
  "copy dst src = take (length dst) src @ drop (length src) dst"

subsection \<open>strings.ReplaceAll with a one-byte pattern and an empty replacement\<close>

definition ReplaceAll_empty :: "string \<Rightarrow> char \<Rightarrow> string" where
  "ReplaceAll_empty s c = filter (\<lambda>x. x \<noteq> c) s"

subsection \<open>encoding/hex\<close>

text \<open>\<open>fromHexChar\<close>: the value of a hexadecimal digit, of either case.\<close>

definition fromHexChar :: "char \<Rightarrow> byte option" where
  "fromHexChar c =
     (let n = (of_char c :: nat) in
      if 48 \<le> n \<and> n \<le> 57 then Some (of_nat (n - 48))
      else if 97 \<le> n \<and> n \<le> 102 then Some (of_nat (n - 97 + 10))
      else if 65 \<le> n \<and> n \<le> 70 then Some (of_nat (n - 65 + 10))
      else None)"

text \<open>
  \<open>hex.DecodeString\<close>: pairs of digits become bytes, left to right. The first byte that
  is no digit stops the decoding with \<open>InvalidByteError\<close>; a trailing single digit
  gives \<open>ErrLength\<close>. \<open>Parse\<close> reads the decoded bytes only when the error is nil, so
  the bytes decoded before an error are left out of the result.
\<close>

fun DecodeString :: "string \<Rightarrow> hex_error + byte list" where
  "DecodeString [] = Inr []"
| "DecodeString [p] =
     (case fromHexChar p of
        None \<Rightarrow> Inl (InvalidByteError p)
      | Some _ \<Rightarrow> Inl ErrLength)"
| "DecodeString (p # q # rest) =
     (case fromHexChar p of
        None \<Rightarrow> Inl (InvalidByteError p)
      | Some a \<Rightarrow>
         (case fromHexChar q of
            None \<Rightarrow> Inl (InvalidByteError q)
          | Some b \<Rightarrow>
             (case DecodeString rest of
                Inl e \<Rightarrow> Inl e
              | Inr ds \<Rightarrow> Inr ((push_bit 4 a OR b) # ds))))"

subsection \<open>fmt's verb \<open>%x\<close> on a byte slice\<close>

definition ldigits :: string where
  "ldigits = ''0123456789abcdef''"

definition fmt_x_byte :: "byte \<Rightarrow> string" where
  "fmt_x_byte c = [ldigits ! unat (drop_bit 4 c), ldigits ! unat (c AND 0xF)]"

definition fmt_x :: "byte list \<Rightarrow> string" where
  "fmt_x bs = concat (map fmt_x_byte bs)"

section \<open>The codec\<close>

text \<open>
  A Go function returning \<open>(UUID, error)\<close> is a pair of the value and an optional
  error; \<open>None\<close> is the nil error. The value is returned on the error path too.
\<close>

definition Parse :: "string \<Rightarrow> UUID \<times> error option" where
  "Parse s0 =
     (let uuid = Nil_UUID;
          s = ReplaceAll_empty s0 (CHR ''-'');
          s = ReplaceAll_empty s (CHR ''{'');
          s = ReplaceAll_empty s (CHR ''}'')
      in if length s \<noteq> 32 then (uuid, Some (InvalidUUIDLength (length s)))
         else (case DecodeString s of
                 Inl err \<Rightarrow> (uuid, Some (InvalidUUIDFormat err))
               | Inr decoded \<Rightarrow> (copy uuid decoded, None)))"

definition ParseBytes :: "byte list \<Rightarrow> UUID \<times> error option" where
  "ParseBytes b =
     (let uuid = Nil_UUID
      in if length b \<noteq> 16 then (uuid, Some (InvalidUUIDByteLength (length b)))
         else (copy uuid b, None))"

definition FromString :: "string \<Rightarrow> UUID \<times> error option" where
  "FromString s = Parse s"

definition String :: "UUID \<Rightarrow> string" where
  "String u =
     fmt_x (subslice u 0 4) @ ''-'' @ fmt_x (subslice u 4 6) @ ''-'' @ fmt_x (subslice u 6 8)
       @ ''-'' @ fmt_x (subslice u 8 10) @ ''-'' @ fmt_x (subslice u 10 (length u))"

definition URN :: "UUID \<Rightarrow> string" where
  "URN u = ''urn:uuid:'' @ String u"

definition Bytes :: "UUID \<Rightarrow> byte list" where
  "Bytes u = u"

definition Version :: "UUID \<Rightarrow> Version" where
  "Version u = drop_bit 4 (u ! 6)"

definition Variant :: "UUID \<Rightarrow> Variant" where
  "Variant u =
     (if (u ! 8) AND 0x80 = 0x00 then VariantNCS
      else if (u ! 8) AND 0xc0 = 0x80 then VariantRFC4122
      else if (u ! 8) AND 0xe0 = 0xc0 then VariantMicrosoft
      else VariantFuture)"

definition IsNil :: "UUID \<Rightarrow> bool" where
  "IsNil u \<longleftrightarrow> u = Nil_UUID"

definition Equal :: "UUID \<Rightarrow> UUID \<Rightarrow> bool" where
  "Equal u other \<longleftrightarrow> u = other"

text \<open>
  \<open>Compare\<close>: the loop \<open>for i := 0; i < 16; i++\<close> as a recursion on the index; bytes
  compare as unsigned numbers.
\<close>

function Compare_from :: "nat \<Rightarrow> UUID \<Rightarrow> UUID \<Rightarrow> int" where
  "Compare_from i u other =
     (if i < 16 then
        (if u ! i < other ! i then - 1
         else if u ! i > other ! i then 1
         else Compare_from (i + 1) u other)
      else 0)"
  by pat_completeness auto
termination
  by (relation "measure (\<lambda>(i, u, other). 16 - i)") auto

definition Compare :: "UUID \<Rightarrow> UUID \<Rightarrow> int" where
  "Compare u other = Compare_from 0 u other"

section \<open>Adapters\<close>

text \<open>
  A method with a pointer receiver returns the receiver's value after the call together
  with its error. \<open>string(text)\<close> turns bytes into the characters of the same value.
\<close>

definition string_of_bytes :: "byte list \<Rightarrow> string" where
  "string_of_bytes bs = map (\<lambda>b. char_of (unat b)) bs"

definition bytes_of_string :: "string \<Rightarrow> byte list" where
  "bytes_of_string s = map (\<lambda>c. of_nat (of_char c)) s"

definition MarshalText :: "UUID \<Rightarrow> byte list \<times> error option" where
  "MarshalText u = (bytes_of_string (String u), None)"

definition UnmarshalText :: "UUID \<Rightarrow> byte list \<Rightarrow> UUID \<times> error option" where
  "UnmarshalText u text =
     (case Parse (string_of_bytes text) of
        (parsed, Some err) \<Rightarrow> (u, Some err)
      | (parsed, None) \<Rightarrow> (parsed, None))"

text \<open>
  \<open>json.Unmarshal(data, &s)\<close> belongs to \<open>encoding/json\<close>; it is a parameter, giving the
  string left in \<open>s\<close> and the error.
\<close>

type_synonym json_decoder = "byte list \<Rightarrow> string \<times> error option"

definition UnmarshalJSON :: "json_decoder \<Rightarrow> UUID \<Rightarrow> byte list \<Rightarrow> UUID \<times> error option" where
  "UnmarshalJSON json_Unmarshal u data =
     (case json_Unmarshal data of
        (s, Some err) \<Rightarrow> (u, Some err)
      | (s, None) \<Rightarrow>
         (case Parse s of
            (parsed, Some err) \<Rightarrow> (u, Some err)
          | (parsed, None) \<Rightarrow> (parsed, None)))"

definition Value :: "UUID \<Rightarrow> string \<times> error option" where
  "Value u = (String u, None)"

text \<open>
  The \<open>interface{}\<close> argument of \<open>Scan\<close>, by the cases of its type switch: the nil
  interface, a \<open>string\<close>, a \<open>[]byte\<close>, and a value of any other dynamic type, given by
  the name that \<open>%T\<close> prints.
\<close>

datatype scan_value =
    NilValue
  | StringValue string
  | BytesValue "byte list"
  | OtherValue string

definition Scan :: "UUID \<Rightarrow> scan_value \<Rightarrow> UUID \<times> error option" where
  "Scan u val =
     (case val of
        NilValue \<Rightarrow> (Nil_UUID, None)
      | StringValue v \<Rightarrow>
         (case Parse v of
            (parsed, Some err) \<Rightarrow> (u, Some err)
          | (parsed, None) \<Rightarrow> (parsed, None))
      | BytesValue v \<Rightarrow>
         (if length v = 16 then (copy u v, None)
          else (case Parse (string_of_bytes v) of
                  (parsed, Some err) \<Rightarrow> (u, Some err)
                | (parsed, None) \<Rightarrow> (parsed, None)))
      | OtherValue t \<Rightarrow> (u, Some (CannotScan t)))"

section \<open>Generation\<close>

text \<open>
  \<open>rand.Read(uuid[:])\<close> writes into the buffer it is given and returns an error; the
  source is a parameter, giving the buffer after the call and the error (the byte count
  is discarded by both callers). \<open>time.Now().UnixNano()\<close> is an \<open>int64\<close>, the parameter
  \<open>now\<close>; \<open>>>\<close> on it is the arithmetic shift and \<open>byte(_)\<close> keeps the low 8 bits.
\<close>

type_synonym rand_source = "byte list \<Rightarrow> byte list \<times> error option"

definition generateV4 :: "rand_source \<Rightarrow> UUID \<times> error option" where
  "generateV4 rand_Read =
     (let uuid = Nil_UUID;
          (uuid, err) = rand_Read uuid
      in case err of
           Some e \<Rightarrow> (uuid, Some e)
         | None \<Rightarrow>
            (let uuid = uuid[6 := (uuid ! 6 AND 0x0f) OR 0x40];
                 uuid = uuid[8 := (uuid ! 8 AND 0x3f) OR 0x80]
             in (uuid, None)))"

definition generateV1 :: "rand_source \<Rightarrow> 64 word \<Rightarrow> UUID \<times> error option" where
  "generateV1 rand_Read now =
     (let uuid = Nil_UUID;
          (uuid, err) = rand_Read uuid
      in case err of
           Some e \<Rightarrow> (uuid, Some e)
         | None \<Rightarrow>
            (let uuid = uuid[0 := ucast now];
                 uuid = uuid[1 := ucast (signed_drop_bit 8 now)];
                 uuid = uuid[2 := ucast (signed_drop_bit 16 now)];
                 uuid = uuid[3 := ucast (signed_drop_bit 24 now)];
                 uuid = uuid[4 := ucast (signed_drop_bit 32 now)];
                 uuid = uuid[5 := ucast (signed_drop_bit 40 now)];
                 uuid = uuid[6 := ucast (signed_drop_bit 48 now) AND 0x0f];
                 uuid = uuid[6 := uuid ! 6 OR 0x10];
                 uuid = uuid[8 := (uuid ! 8 AND 0x3f) OR 0x80]
             in (uuid, None)))"

record UUIDGenerator =
  version :: Version

definition NewGenerator :: "Version \<Rightarrow> UUIDGenerator" where
  "NewGenerator v = \<lparr>version = v\<rparr>"

definition Generate :: "UUIDGenerator \<Rightarrow> rand_source \<Rightarrow> 64 word \<Rightarrow> UUID \<times> error option" where
  "Generate g rand_Read now =
     (if version g = VersionRandom then generateV4 rand_Read
      else if version g = VersionTimeBased then generateV1 rand_Read now
      else generateV4 rand_Read)"

definition Generator_Version :: "UUIDGenerator \<Rightarrow> Version" where
  "Generator_Version g = version g"

definition New :: "rand_source \<Rightarrow> UUID" where
  "New rand_Read = (case generateV4 rand_Read of (uuid, _) \<Rightarrow> uuid)"

definition NewV4 :: "rand_source \<Rightarrow> UUID \<times> error option" where
  "NewV4 rand_Read = generateV4 rand_Read"

definition NewV1 :: "rand_source \<Rightarrow> 64 word \<Rightarrow> UUID \<times> error option" where
  "NewV1 rand_Read now = generateV1 rand_Read now"

text \<open>A call either returns or panics with an error.\<close>

datatype 'a outcome = Returns 'a | Panics error

definition Must :: "UUID \<times> error option \<Rightarrow> UUID outcome" where
  "Must r = (case r of (uuid, Some err) \<Rightarrow> Panics err | (uuid, None) \<Rightarrow> Returns uuid)"

definition MustNew :: "rand_source \<Rightarrow> UUID outcome" where
  "MustNew rand_Read = Must (NewV4 rand_Read)"

definition MustParse :: "string \<Rightarrow> UUID outcome" where
  "MustParse s = (case Parse s of (uuid, Some err) \<Rightarrow> Panics err | (uuid, None) \<Rightarrow> Returns uuid)"

text \<open>
  A random source that fails without writing, reporting an error of \<open>crypto/rand\<close>, as
  \<open>rand.Read\<close> can where it returns an error instead of aborting the program.
\<close>

definition failing_source :: rand_source where
  "failing_source b = (b, Some (ExternalError ''entropy source unavailable''))"

section \<open>Notions of the specification\<close>

text \<open>
  The input of \<open>Parse\<close> without its hyphens and braces; the hexadecimal digits of either
  case, and the value of one.
\<close>

definition stripped :: "string \<Rightarrow> string" where
  "stripped s = filter (\<lambda>c. c \<noteq> CHR ''-'' \<and> c \<noteq> CHR ''{'' \<and> c \<noteq> CHR ''}'') s"

definition is_hex_digit :: "char \<Rightarrow> bool" where
  "is_hex_digit c \<longleftrightarrow> c \<in> set ''0123456789abcdefABCDEF''"

fun index_of :: "'a \<Rightarrow> 'a list \<Rightarrow> nat" where
  "index_of x [] = 0"
| "index_of x (y # ys) = (if x = y then 0 else Suc (index_of x ys))"

definition hex_digit_value :: "char \<Rightarrow> nat" where
  "hex_digit_value c =
     (if c \<in> set ''0123456789abcdef'' then index_of c ''0123456789abcdef''
      else index_of c ''0123456789ABCDEF'')"

section \<open>Hexadecimal text\<close>

lemma fromHexChar_ldigits: "n < 16 \<Longrightarrow> fromHexChar (ldigits ! n) = Some (of_nat n)"
proof -
  have "\<forall>n \<in> set [0..<16]. fromHexChar (ldigits ! n) = Some (of_nat n)"
    by (simp add: upt_rec [of _ "numeral k" for k] fromHexChar_def ldigits_def)
  then show "n < 16 \<Longrightarrow> ?thesis" by simp
qed

lemma ldigits_mem: "n < 16 \<Longrightarrow> ldigits ! n \<in> set ldigits"
  by (rule nth_mem) (simp add: ldigits_def)

lemma hi_nibble_lt: "unat (drop_bit 4 (c :: byte)) < 16"
proof -
  have "unat (drop_bit 4 c) = drop_bit 4 (unat c)" by (rule unat_drop_bit_eq)
  also have "\<dots> = unat c div 2 ^ 4" by (rule drop_bit_eq_div)
  finally have "unat (drop_bit 4 c) = unat c div 16" by simp
  moreover have "unat c < 256" using unsigned_less [of c] by simp
  ultimately show ?thesis by simp
qed

lemma lo_nibble_lt: "unat ((c :: byte) AND 0xF) < 16"
proof -
  have "unat (c AND 0xF) \<le> unat (0xF :: byte)"
    by (rule word_and_le1 [THEN word_le_nat_alt [THEN iffD1]])
  then show ?thesis by simp
qed

lemma nibbles_join: "push_bit 4 (drop_bit 4 c) OR (c AND 0xF) = (c :: byte)"
proof -
  have "(0xF :: byte) = mask 4" by (simp add: mask_eq_exp_minus_1)
  then show ?thesis
    by (simp add: bit_eq_iff bit_simps) (auto simp: bit_simps)
qed

lemma fromHexChar_fmt_x_byte:
  "fromHexChar (ldigits ! unat (drop_bit 4 c)) = Some (drop_bit 4 c)"
  "fromHexChar (ldigits ! unat (c AND 0xF)) = Some (c AND 0xF)"
  using fromHexChar_ldigits [OF hi_nibble_lt [of c]] fromHexChar_ldigits [OF lo_nibble_lt [of c]]
  by simp_all

lemma DecodeString_fmt_x_byte:
  "DecodeString (fmt_x_byte c @ rest) =
     (case DecodeString rest of Inl e \<Rightarrow> Inl e | Inr ds \<Rightarrow> Inr (c # ds))"
  by (simp add: fmt_x_byte_def fromHexChar_fmt_x_byte nibbles_join split: sum.splits)

lemma DecodeString_fmt_x: "DecodeString (fmt_x bs) = Inr bs"
  by (induction bs) (simp_all add: fmt_x_def DecodeString_fmt_x_byte)

lemma length_fmt_x: "length (fmt_x bs) = 2 * length bs"
  by (induction bs) (simp_all add: fmt_x_def fmt_x_byte_def)

lemma set_fmt_x: "set (fmt_x bs) \<subseteq> set ldigits"
  by (induction bs) (simp_all add: fmt_x_def fmt_x_byte_def ldigits_mem hi_nibble_lt lo_nibble_lt)

lemma fmt_x_append: "fmt_x (xs @ ys) = fmt_x xs @ fmt_x ys"
  by (simp add: fmt_x_def)

lemma slices_join:
  assumes "length u = 16"
  shows "subslice u 0 4 @ subslice u 4 6 @ subslice u 6 8 @ subslice u 8 10 @ subslice u 10 (length u) = u"
proof -
  have a: "take n (drop m u) @ drop (m + n) u = drop m u" for m n
    by (metis append_take_drop_id drop_drop add.commute)
  have "subslice u 10 (length u) = drop 10 u" by (simp add: subslice_def)
  moreover have "take 2 (drop 8 u) @ drop 10 u = drop 8 u" using a [of 2 8] by simp
  moreover have "take 2 (drop 6 u) @ drop 8 u = drop 6 u" using a [of 2 6] by simp
  moreover have "take 2 (drop 4 u) @ drop 6 u = drop 4 u" using a [of 2 4] by simp
  ultimately show ?thesis by (simp add: subslice_def)
qed

lemma filter_fmt_x: "c \<notin> set ldigits \<Longrightarrow> filter (\<lambda>x. x \<noteq> c) (fmt_x bs) = fmt_x bs"
  using set_fmt_x [of bs] by (auto simp: filter_id_conv)

lemma strip_String:
  assumes "length u = 16"
  shows "ReplaceAll_empty (ReplaceAll_empty (ReplaceAll_empty (String u) (CHR ''-'')) (CHR ''{'')) (CHR ''}'')
           = fmt_x u"
proof -
  have d: "CHR ''-'' \<notin> set ldigits" "CHR ''{'' \<notin> set ldigits" "CHR ''}'' \<notin> set ldigits"
    by (simp_all add: ldigits_def)
  have "ReplaceAll_empty (String u) (CHR ''-'')
          = fmt_x (subslice u 0 4 @ subslice u 4 6 @ subslice u 6 8 @ subslice u 8 10 @ subslice u 10 (length u))"
    by (simp add: String_def ReplaceAll_empty_def fmt_x_append filter_fmt_x [OF d(1)])
  then have "ReplaceAll_empty (String u) (CHR ''-'') = fmt_x u"
    by (simp only: slices_join [OF assms])
  then show ?thesis
    by (simp add: ReplaceAll_empty_def filter_fmt_x [OF d(2)] filter_fmt_x [OF d(3)])
qed

lemma copy_Nil_UUID: "length bs = 16 \<Longrightarrow> copy Nil_UUID bs = bs"
  by (simp add: copy_def Nil_UUID_def)

text \<open>
  C1: for every 16-byte UUID value \<open>v\<close>, parsing the canonical text that formatting
  \<open>v\<close> produces succeeds (the error is nil) and returns \<open>v\<close> itself.
\<close>

theorem Parse_String_roundtrip:
  assumes "length v = 16"
  shows "Parse (String v) = (v, None)"
  by (simp add: Parse_def Let_def strip_String [OF assms] length_fmt_x DecodeString_fmt_x
      copy_Nil_UUID assms)

theorem Parse_String_roundtrip_witness:
  "Parse (String [0x55,0x0e,0x84,0x00,0xe2,0x9b,0x41,0xd4,0xa7,0x16,0x44,0x66,0x55,0x44,0x00,0x00])
     = ([0x55,0x0e,0x84,0x00,0xe2,0x9b,0x41,0xd4,0xa7,0x16,0x44,0x66,0x55,0x44,0x00,0x00], None)"
  using Parse_String_roundtrip
    [of "[0x55,0x0e,0x84,0x00,0xe2,0x9b,0x41,0xd4,0xa7,0x16,0x44,0x66,0x55,0x44,0x00,0x00]"]
  by simp

lemma length_subslice: "hi \<le> length xs \<Longrightarrow> length (subslice xs lo hi) = hi - lo"
  by (simp add: subslice_def)

text \<open>
  C7: for every 16-byte UUID value, \<open>String\<close> has exactly 36 characters: five groups of
  8, 4, 4, 4 and 12 lowercase hexadecimal digits joined by hyphens, the digits being those
  of the 16 bytes in order. \<open>String\<close> is a function of the bytes alone: it has no other
  argument.
\<close>

theorem String_canonical:
  assumes "length u = 16"
  shows "length (String u) = 36 \<and>
    (\<exists>g1 g2 g3 g4 g5.
       String u = g1 @ ''-'' @ g2 @ ''-'' @ g3 @ ''-'' @ g4 @ ''-'' @ g5 \<and>
       length g1 = 8 \<and> length g2 = 4 \<and> length g3 = 4 \<and> length g4 = 4 \<and> length g5 = 12 \<and>
       set (g1 @ g2 @ g3 @ g4 @ g5) \<subseteq> set ''0123456789abcdef'' \<and>
       g1 @ g2 @ g3 @ g4 @ g5 = concat (map fmt_x_byte u))"
proof -
  let ?g1 = "fmt_x (subslice u 0 4)" and ?g2 = "fmt_x (subslice u 4 6)"
  and ?g3 = "fmt_x (subslice u 6 8)" and ?g4 = "fmt_x (subslice u 8 10)"
  and ?g5 = "fmt_x (subslice u 10 (length u))"
  have len: "length ?g1 = 8" "length ?g2 = 4" "length ?g3 = 4" "length ?g4 = 4" "length ?g5 = 12"
    using assms by (simp_all add: length_fmt_x length_subslice)
  have cat: "?g1 @ ?g2 @ ?g3 @ ?g4 @ ?g5 = fmt_x u"
    using slices_join [OF assms] by (simp only: fmt_x_append [symmetric])
  have hexd: "set (?g1 @ ?g2 @ ?g3 @ ?g4 @ ?g5) \<subseteq> set ''0123456789abcdef''"
    using set_fmt_x [of u] by (simp only: cat ldigits_def)
  have str: "String u = ?g1 @ ''-'' @ ?g2 @ ''-'' @ ?g3 @ ''-'' @ ?g4 @ ''-'' @ ?g5"
    by (simp add: String_def)
  have "length (String u) = 36"
    by (simp only: str length_append len) simp
  moreover have "?g1 @ ?g2 @ ?g3 @ ?g4 @ ?g5 = concat (map fmt_x_byte u)"
    using cat by (simp only: fmt_x_def)
  ultimately show ?thesis
    using str len hexd by blast
qed

theorem String_canonical_witness:
  "String [0x55,0x0e,0x84,0x00,0xe2,0x9b,0x41,0xd4,0xa7,0x16,0x44,0x66,0x55,0x44,0x00,0x00]
     = ''550e8400-e29b-41d4-a716-446655440000'' \<and>
   length (String [0x55,0x0e,0x84,0x00,0xe2,0x9b,0x41,0xd4,0xa7,0x16,0x44,0x66,0x55,0x44,0x00,0x00]) = 36"
  using String_canonical
    [of "[0x55,0x0e,0x84,0x00,0xe2,0x9b,0x41,0xd4,0xa7,0x16,0x44,0x66,0x55,0x44,0x00,0x00]"]
  by (simp add: String_def subslice_def fmt_x_def fmt_x_byte_def ldigits_def)

section \<open>Parsing\<close>

lemma strip_eq:
  "ReplaceAll_empty (ReplaceAll_empty (ReplaceAll_empty s (CHR ''-'')) (CHR ''{'')) (CHR ''}'')
     = stripped s"
  by (simp add: ReplaceAll_empty_def stripped_def conj_commute conj_left_commute)

lemma fromHexChar_digit:
  assumes "is_hex_digit c"
  shows "fromHexChar c = Some (of_nat (hex_digit_value c))"
  using assms unfolding is_hex_digit_def
  by (auto simp: fromHexChar_def hex_digit_value_def)

lemma hex_digit_value_lt:
  assumes "is_hex_digit c"
  shows "hex_digit_value c < 16"
  using assms unfolding is_hex_digit_def
  by (auto simp: hex_digit_value_def)

lemma is_hex_digit_code:
  "is_hex_digit c \<longleftrightarrow>
     (of_char c :: nat) \<in> {48, 49, 50, 51, 52, 53, 54, 55, 56, 57,
       97, 98, 99, 100, 101, 102, 65, 66, 67, 68, 69, 70}"
proof -
  have "is_hex_digit c \<longleftrightarrow> (of_char c :: nat) \<in> of_char ` set ''0123456789abcdefABCDEF''"
    unfolding is_hex_digit_def by (rule inj_image_mem_iff [OF inj_of_char, symmetric])
  then show ?thesis by simp
qed

lemma fromHexChar_Some_digit:
  assumes "fromHexChar c = Some a"
  shows "is_hex_digit c"
proof -
  let ?n = "of_char c :: nat"
  from assms have "(48 \<le> ?n \<and> ?n \<le> 57) \<or> (97 \<le> ?n \<and> ?n \<le> 102) \<or> (65 \<le> ?n \<and> ?n \<le> 70)"
    by (auto simp: fromHexChar_def Let_def split: if_splits)
  then have "?n \<in> {48, 49, 50, 51, 52, 53, 54, 55, 56, 57,
       97, 98, 99, 100, 101, 102, 65, 66, 67, 68, 69, 70}"
    by (simp only: insert_iff empty_iff) arith
  then show ?thesis by (simp only: is_hex_digit_code)
qed

lemma fromHexChar_None_iff: "fromHexChar c = None \<longleftrightarrow> \<not> is_hex_digit c"
  using fromHexChar_digit [of c] fromHexChar_Some_digit [of c] by (cases "fromHexChar c") auto

lemma byte_of_nibbles:
  assumes "x < 16" "y < 16"
  shows "unat (push_bit 4 (of_nat x :: byte) OR of_nat y) = 16 * x + y"
proof -
  have "\<forall>x\<in>set [0..<16]. \<forall>y\<in>set [0..<16].
          unat (push_bit 4 (of_nat x :: byte) OR of_nat y) = 16 * x + y"
    by code_simp
  with assms show ?thesis by simp
qed

lemma DecodeString_Inr:
  "DecodeString t = Inr ds \<Longrightarrow>
     (\<forall>c\<in>set t. is_hex_digit c) \<and> length t = 2 * length ds \<and>
     (\<forall>i<length ds. unat (ds ! i)
        = 16 * hex_digit_value (t ! (2 * i)) + hex_digit_value (t ! (2 * i + 1)))"
proof (induction t arbitrary: ds rule: DecodeString.induct)
  case 1
  then show ?case by simp
next
  case (2 p)
  then show ?case by (simp split: option.splits)
next
  case (3 p q rest)
  from "3.prems" obtain a b ds' where
    a: "fromHexChar p = Some a" and b: "fromHexChar q = Some b"
    and r: "DecodeString rest = Inr ds'" and ds: "ds = (push_bit 4 a OR b) # ds'"
    by (auto split: option.splits sum.splits)
  have hp: "is_hex_digit p" and hq: "is_hex_digit q"
    using a b by (auto dest: fromHexChar_Some_digit)
  have av: "a = of_nat (hex_digit_value p)" and bv: "b = of_nat (hex_digit_value q)"
    using a b fromHexChar_digit [OF hp] fromHexChar_digit [OF hq] by simp_all
  have head: "unat (push_bit 4 a OR b) = 16 * hex_digit_value p + hex_digit_value q"
    unfolding av bv by (rule byte_of_nibbles [OF hex_digit_value_lt [OF hp] hex_digit_value_lt [OF hq]])
  from "3.IH" [OF a b r] have
    ih1: "\<forall>c\<in>set rest. is_hex_digit c" and ih2: "length rest = 2 * length ds'"
    and ih3: "\<forall>i<length ds'. unat (ds' ! i)
        = 16 * hex_digit_value (rest ! (2 * i)) + hex_digit_value (rest ! (2 * i + 1))"
    by simp_all
  have "unat (ds ! i)
        = 16 * hex_digit_value ((p # q # rest) ! (2 * i)) + hex_digit_value ((p # q # rest) ! (2 * i + 1))"
    if "i < length ds" for i
  proof (cases i)
    case 0
    then show ?thesis using head ds by simp
  next
    case (Suc j)
    then show ?thesis using ih3 that ds by simp
  qed
  then show ?case using hp hq ih1 ih2 ds by simp
qed

lemma DecodeString_all_hex:
  "even (length t) \<Longrightarrow> \<forall>c\<in>set t. is_hex_digit c \<Longrightarrow> \<exists>ds. DecodeString t = Inr ds"
proof (induction t rule: DecodeString.induct)
  case 1
  then show ?case by simp
next
  case (2 p)
  then show ?case by simp
next
  case (3 p q rest)
  from "3.prems" have hp: "is_hex_digit p" and hq: "is_hex_digit q"
    and hr: "\<forall>c\<in>set rest. is_hex_digit c" and ev: "even (length rest)"
    by simp_all
  from "3.IH" [OF fromHexChar_digit [OF hp] fromHexChar_digit [OF hq] ev hr]
  obtain ds where "DecodeString rest = Inr ds" by blast
  then show ?case
    by (simp add: fromHexChar_digit [OF hp] fromHexChar_digit [OF hq])
qed

lemma DecodeString_Inl:
  "even (length t) \<Longrightarrow> DecodeString t = Inl e \<Longrightarrow>
     \<exists>pre c post. t = pre @ c # post \<and> (\<forall>x\<in>set pre. is_hex_digit x) \<and>
        \<not> is_hex_digit c \<and> e = InvalidByteError c"
proof (induction t rule: DecodeString.induct)
  case 1
  then show ?case by simp
next
  case (2 p)
  then show ?case by simp
next
  case (3 p q rest)
  show ?case
  proof (cases "fromHexChar p")
    case None
    with "3.prems" have "e = InvalidByteError p" "\<not> is_hex_digit p"
      by (simp_all add: fromHexChar_None_iff [symmetric])
    then have "p # q # rest = [] @ p # (q # rest) \<and> (\<forall>x\<in>set []. is_hex_digit x) \<and>
        \<not> is_hex_digit p \<and> e = InvalidByteError p" by simp
    then show ?thesis by blast
  next
    case (Some a)
    note a = this
    then have hp: "is_hex_digit p" by (rule fromHexChar_Some_digit)
    show ?thesis
    proof (cases "fromHexChar q")
      case None
      with a "3.prems" have "e = InvalidByteError q" "\<not> is_hex_digit q"
        by (simp_all add: fromHexChar_None_iff [symmetric])
      with hp have "p # q # rest = [p] @ q # rest \<and> (\<forall>x\<in>set [p]. is_hex_digit x) \<and>
        \<not> is_hex_digit q \<and> e = InvalidByteError q" by simp
      then show ?thesis by blast
    next
      case (Some b)
      note b = this
      then have hq: "is_hex_digit q" by (rule fromHexChar_Some_digit)
      from a b "3.prems" have "DecodeString rest = Inl e" "even (length rest)"
        by (auto split: sum.splits)
      from "3.IH" [OF a b this(2) this(1)] obtain pre c post where
        "rest = pre @ c # post" "\<forall>x\<in>set pre. is_hex_digit x" "\<not> is_hex_digit c"
        "e = InvalidByteError c" by blast
      with hp hq have "p # q # rest = (p # q # pre) @ c # post \<and>
        (\<forall>x\<in>set (p # q # pre). is_hex_digit x) \<and> \<not> is_hex_digit c \<and> e = InvalidByteError c"
        by simp
      then show ?thesis by blast
    qed
  qed
qed

lemma Parse_stripped:
  "Parse s =
     (if length (stripped s) \<noteq> 32 then (Nil_UUID, Some (InvalidUUIDLength (length (stripped s))))
      else (case DecodeString (stripped s) of
              Inl err \<Rightarrow> (Nil_UUID, Some (InvalidUUIDFormat err))
            | Inr decoded \<Rightarrow> (copy Nil_UUID decoded, None)))"
  by (simp add: Parse_def Let_def strip_eq)

text \<open>
  C2, as stated, fails where a character that is no hexadecimal digit remains and the
  stripped length is not 32: the length is checked first, so the input \<open>g\<close> fails with
  the length error and not with the invalid-hex error.
\<close>

theorem Parse_length_checked_first:
  "stripped ''g'' = ''g'' \<and> \<not> is_hex_digit CHR ''g'' \<and>
   Parse ''g'' = (Nil_UUID, Some (InvalidUUIDLength 1)) \<and>
   snd (Parse ''g'') \<noteq> Some (InvalidUUIDFormat (InvalidByteError CHR ''g''))"
  by (simp add: Parse_def ReplaceAll_empty_def stripped_def is_hex_digit_def)

text \<open>
  C2, amended: for every input string, with \<open>stripped s\<close> the input without \<open>-\<close>,
  \<open>{\<close> and \<open>}\<close>: \<open>Parse\<close> succeeds exactly when \<open>stripped s\<close> is 32 hexadecimal digits;
  whenever its length is not 32 the error is the length error, carrying that length,
  whatever the characters are; when its length is 32 and some character of it is no
  hexadecimal digit the error is the invalid-hex error naming the first such character; on
  success the result has 16 bytes and byte \<open>i\<close> has the value of the digits at positions
  \<open>2 * i\<close> and \<open>2 * i + 1\<close>.
\<close>

theorem Parse_spec:
  "(snd (Parse s) = None \<longleftrightarrow>
      length (stripped s) = 32 \<and> (\<forall>c\<in>set (stripped s). is_hex_digit c)) \<and>
   (length (stripped s) \<noteq> 32 \<longrightarrow>
      Parse s = (Nil_UUID, Some (InvalidUUIDLength (length (stripped s))))) \<and>
   (length (stripped s) = 32 \<and> (\<exists>c\<in>set (stripped s). \<not> is_hex_digit c) \<longrightarrow>
      (\<exists>pre c post. stripped s = pre @ c # post \<and> (\<forall>x\<in>set pre. is_hex_digit x) \<and>
         \<not> is_hex_digit c \<and>
         Parse s = (Nil_UUID, Some (InvalidUUIDFormat (InvalidByteError c))))) \<and>
   (snd (Parse s) = None \<longrightarrow>
      length (fst (Parse s)) = 16 \<and>
      (\<forall>i<16. unat (fst (Parse s) ! i)
         = 16 * hex_digit_value (stripped s ! (2 * i)) + hex_digit_value (stripped s ! (2 * i + 1))))"
proof (cases "length (stripped s) = 32")
  case False
  then have p: "Parse s = (Nil_UUID, Some (InvalidUUIDLength (length (stripped s))))"
    by (simp add: Parse_stripped)
  show ?thesis using False by (simp add: p)
next
  case len: True
  then have ev: "even (length (stripped s))" by simp
  show ?thesis
  proof (cases "DecodeString (stripped s)")
    case (Inl e)
    then have p: "Parse s = (Nil_UUID, Some (InvalidUUIDFormat e))"
      using len by (simp add: Parse_stripped)
    from DecodeString_Inl [OF ev Inl] obtain pre c post where
      w: "stripped s = pre @ c # post" "\<forall>x\<in>set pre. is_hex_digit x" "\<not> is_hex_digit c"
         "e = InvalidByteError c" by blast
    then have bad: "\<exists>c\<in>set (stripped s). \<not> is_hex_digit c" by auto
    have "\<exists>pre c post. stripped s = pre @ c # post \<and> (\<forall>x\<in>set pre. is_hex_digit x) \<and>
         \<not> is_hex_digit c \<and> Parse s = (Nil_UUID, Some (InvalidUUIDFormat (InvalidByteError c)))"
      using w p by blast
    then show ?thesis using len bad by (simp add: p)
  next
    case (Inr ds)
    from DecodeString_Inr [OF Inr] have
      hex: "\<forall>c\<in>set (stripped s). is_hex_digit c" and l: "length (stripped s) = 2 * length ds"
      and v: "\<forall>i<length ds. unat (ds ! i)
        = 16 * hex_digit_value (stripped s ! (2 * i)) + hex_digit_value (stripped s ! (2 * i + 1))"
      by simp_all
    from l len have lds: "length ds = 16" by simp
    have p: "Parse s = (ds, None)"
      using len Inr by (simp add: Parse_stripped copy_Nil_UUID [OF lds])
    show ?thesis using len hex v lds by (simp add: p)
  qed
qed

theorem Parse_spec_witness:
  "Parse ''550e8400-e29b-41d4-a716'' = (Nil_UUID, Some (InvalidUUIDLength 20)) \<and>
   Parse ''550e8400-e29b-41d4-a716-44665544000g''
     = (Nil_UUID, Some (InvalidUUIDFormat (InvalidByteError CHR ''g''))) \<and>
   snd (Parse ''{550e8400-E29B-41d4-a716-446655440000}'') = None \<and>
   unat (fst (Parse ''{550e8400-E29B-41d4-a716-446655440000}'') ! 5) = 155"
proof -
  have a: "length (stripped ''550e8400-e29b-41d4-a716'') \<noteq> 32"
    by (simp add: stripped_def)
  have b: "length (stripped ''{550e8400-E29B-41d4-a716-446655440000}'') = 32 \<and>
      (\<forall>c\<in>set (stripped ''{550e8400-E29B-41d4-a716-446655440000}''). is_hex_digit c)"
    by (simp add: stripped_def is_hex_digit_def)
  have c: "length (stripped ''550e8400-e29b-41d4-a716-44665544000g'') = 32 \<and>
      (\<exists>c\<in>set (stripped ''550e8400-e29b-41d4-a716-44665544000g''). \<not> is_hex_digit c)"
    by (simp add: stripped_def is_hex_digit_def)
  have "Parse ''550e8400-e29b-41d4-a716'' = (Nil_UUID, Some (InvalidUUIDLength 20))"
    using Parse_spec [of "''550e8400-e29b-41d4-a716''"] a by (simp add: stripped_def)
  moreover have ok: "snd (Parse ''{550e8400-E29B-41d4-a716-446655440000}'') = None"
    using Parse_spec [of "''{550e8400-E29B-41d4-a716-446655440000}''"] b by blast
  moreover have "unat (fst (Parse ''{550e8400-E29B-41d4-a716-446655440000}'') ! 5)
      = 16 * hex_digit_value (stripped ''{550e8400-E29B-41d4-a716-446655440000}'' ! (2 * 5))
        + hex_digit_value (stripped ''{550e8400-E29B-41d4-a716-446655440000}'' ! (2 * 5 + 1))"
    using Parse_spec [of "''{550e8400-E29B-41d4-a716-446655440000}''"] ok by simp
  then have "unat (fst (Parse ''{550e8400-E29B-41d4-a716-446655440000}'') ! 5) = 155"
    by (simp add: stripped_def hex_digit_value_def)
  moreover have "Parse ''550e8400-e29b-41d4-a716-44665544000g''
     = (Nil_UUID, Some (InvalidUUIDFormat (InvalidByteError CHR ''g'')))"
  proof -
    from Parse_spec [of "''550e8400-e29b-41d4-a716-44665544000g''"] c
    obtain pre c post where
      w: "stripped ''550e8400-e29b-41d4-a716-44665544000g'' = pre @ c # post"
         "\<forall>x\<in>set pre. is_hex_digit x" "\<not> is_hex_digit c"
      and p: "Parse ''550e8400-e29b-41d4-a716-44665544000g''
                = (Nil_UUID, Some (InvalidUUIDFormat (InvalidByteError c)))"
      by blast
    from w(1) have "c \<in> set (stripped ''550e8400-e29b-41d4-a716-44665544000g'')" by simp
    with w(3) have "c = CHR ''g''" by (simp add: stripped_def is_hex_digit_def)
    with p show ?thesis by simp
  qed
  ultimately show ?thesis by blast
qed

section \<open>Properties of generation\<close>

lemma byte_cases: "(x::byte) \<in> set (map of_nat [0..<256])"
proof -
  have "unat x < 256" using unsigned_less [of x] by simp
  then have "of_nat (unat x) \<in> (of_nat :: nat \<Rightarrow> byte) ` {0..<256}" by (intro imageI) simp
  then show ?thesis by simp
qed

lemma byte_all:
  assumes "\<forall>x\<in>set (map of_nat [0..<256]). P (x::byte)"
  shows "P x"
  using assms byte_cases [of x] by blast

lemma version4_byte:
  "drop_bit 4 (((x::byte) AND 0x0f) OR 0x40) = 4"
  "n < 4 \<Longrightarrow> bit (((x::byte) AND 0x0f) OR 0x40) n = bit x n"
proof -
  have "\<forall>x\<in>set (map of_nat [0..<256]). drop_bit 4 (((x::byte) AND 0x0f) OR 0x40) = 4"
    by code_simp
  with byte_cases [of x] show "drop_bit 4 (((x::byte) AND 0x0f) OR 0x40) = 4" by blast
  have "\<forall>x\<in>set (map of_nat [0..<256]). \<forall>n\<in>set [0..<4].
          bit (((x::byte) AND 0x0f) OR 0x40) n = bit x n"
    by code_simp
  from byte_all [of "\<lambda>x. \<forall>n\<in>set [0..<4]. bit ((x AND 0x0f) OR 0x40) n = bit x n", OF this]
  show "n < 4 \<Longrightarrow> bit (((x::byte) AND 0x0f) OR 0x40) n = bit x n"
    by simp
qed

lemma variant_byte:
  "(((x::byte) AND 0x3f) OR 0x80) AND 0x80 \<noteq> 0x00"
  "(((x::byte) AND 0x3f) OR 0x80) AND 0xc0 = 0x80"
  "n < 6 \<Longrightarrow> bit (((x::byte) AND 0x3f) OR 0x80) n = bit x n"
proof -
  have "\<forall>x\<in>set (map of_nat [0..<256]).
          (((x::byte) AND 0x3f) OR 0x80) AND 0x80 \<noteq> 0x00 \<and> ((x AND 0x3f) OR 0x80) AND 0xc0 = 0x80"
    by code_simp
  with byte_cases [of x] show "(((x::byte) AND 0x3f) OR 0x80) AND 0x80 \<noteq> 0x00"
    "(((x::byte) AND 0x3f) OR 0x80) AND 0xc0 = 0x80" by blast+
  have "\<forall>x\<in>set (map of_nat [0..<256]). \<forall>n\<in>set [0..<6].
          bit (((x::byte) AND 0x3f) OR 0x80) n = bit x n"
    by code_simp
  from byte_all [of "\<lambda>x. \<forall>n\<in>set [0..<6]. bit ((x AND 0x3f) OR 0x80) n = bit x n", OF this]
  show "n < 6 \<Longrightarrow> bit (((x::byte) AND 0x3f) OR 0x80) n = bit x n"
    by simp
qed

text \<open>
  C3: whenever the random source fills the 16-byte buffer with \<open>r\<close> and reports no
  error, the random strategy (\<open>generateV4\<close>, and so \<open>New\<close>, \<open>NewV4\<close> and a generator made
  for the random tag) returns without error a value of version \<open>VersionRandom\<close> and
  variant \<open>VariantRFC4122\<close>, every bit of which is the bit of \<open>r\<close> except the four high
  bits of byte 6 and the two high bits of byte 8.
\<close>

theorem generateV4_spec:
  assumes rd: "rand_Read Nil_UUID = (r, None)" and len: "length r = 16"
  shows "\<exists>u. generateV4 rand_Read = (u, None) \<and> NewV4 rand_Read = (u, None) \<and>
           New rand_Read = u \<and> Generate (NewGenerator VersionRandom) rand_Read now = (u, None) \<and>
           length u = 16 \<and> Version u = VersionRandom \<and> Variant u = VariantRFC4122 \<and>
           (\<forall>i<16. \<forall>n<8. \<not> (i = 6 \<and> 4 \<le> n) \<longrightarrow> \<not> (i = 8 \<and> 6 \<le> n) \<longrightarrow>
               bit (u ! i) n = bit (r ! i) n)"
proof -
  let ?u = "r[6 := (r ! 6 AND 0x0f) OR 0x40, 8 := (r ! 8 AND 0x3f) OR 0x80]"
  have g: "generateV4 rand_Read = (?u, None)" using rd by (simp add: generateV4_def Let_def)
  have u6: "?u ! 6 = (r ! 6 AND 0x0f) OR 0x40" and u8: "?u ! 8 = (r ! 8 AND 0x3f) OR 0x80"
    using len by simp_all
  have ver: "Version ?u = VersionRandom"
    unfolding Version_def u6 VersionRandom_def by (rule version4_byte(1))
  have var: "Variant ?u = VariantRFC4122"
    unfolding Variant_def u8 by (simp add: variant_byte)
  have bits: "bit (?u ! i) n = bit (r ! i) n"
    if "i < 16" "n < 8" "\<not> (i = 6 \<and> 4 \<le> n)" "\<not> (i = 8 \<and> 6 \<le> n)" for i n
  proof -
    consider "i = 6" | "i = 8" | "i \<noteq> 6" "i \<noteq> 8" by blast
    then show ?thesis
    proof cases
      case 1
      with that have "n < 4" by simp
      then show ?thesis unfolding 1 u6 by (rule version4_byte(2))
    next
      case 2
      with that have "n < 6" by simp
      then show ?thesis unfolding 2 u8 by (rule variant_byte(3))
    next
      case 3
      then show ?thesis by simp
    qed
  qed
  have "Generate (NewGenerator VersionRandom) rand_Read now = (?u, None)"
    by (simp add: Generate_def NewGenerator_def g)
  moreover have "New rand_Read = ?u" by (simp add: New_def g)
  moreover have "NewV4 rand_Read = (?u, None)" by (simp add: NewV4_def g)
  moreover have "length ?u = 16" using len by simp
  ultimately show ?thesis using g ver var bits by blast
qed

theorem generateV4_spec_witness:
  "\<exists>u. generateV4 (\<lambda>b. (map (\<lambda>_. 0xff) b, None)) = (u, None) \<and>
        New (\<lambda>b. (map (\<lambda>_. 0xff) b, None)) = u \<and>
        Version u = VersionRandom \<and> Variant u = VariantRFC4122 \<and> bit (u ! 6) 0"
proof -
  have rd: "(\<lambda>b. (map (\<lambda>_. 0xff :: byte) b, None :: error option)) Nil_UUID = (replicate 16 0xff, None)"
    by (simp add: Nil_UUID_def)
  have len: "length (replicate 16 (0xff :: byte)) = 16" by simp
  from generateV4_spec [of "\<lambda>b. (map (\<lambda>_. 0xff) b, None)" "replicate 16 0xff" 0, OF rd len]
  obtain u where u: "generateV4 (\<lambda>b. (map (\<lambda>_. 0xff) b, None)) = (u, None)"
    "New (\<lambda>b. (map (\<lambda>_. 0xff) b, None)) = u"
    "Version u = VersionRandom" "Variant u = VariantRFC4122"
    "\<forall>i<16. \<forall>n<8. \<not> (i = 6 \<and> 4 \<le> n) \<longrightarrow> \<not> (i = 8 \<and> 6 \<le> n) \<longrightarrow>
       bit (u ! i) n = bit (replicate 16 (0xff :: byte) ! i) n"
    by blast
  from u(5) have "bit (u ! 6) 0 = bit (replicate 16 (0xff :: byte) ! 6) 0" by simp
  then have "bit (u ! 6) 0" by simp
  with u show ?thesis by blast
qed

lemma ts_byte_ucast:
  assumes "k \<le> 56"
  shows "(ucast (signed_drop_bit k (now :: 64 word)) :: byte) = ucast (drop_bit k now)"
proof (rule bit_word_eqI)
  fix n assume "n < LENGTH(8)"
  then have "n < 8" by simp
  with assms have "\<not> 64 - k \<le> n" by arith
  then show "bit (ucast (signed_drop_bit k now) :: byte) n = bit (ucast (drop_bit k now) :: byte) n"
    by (simp add: bit_ucast_iff bit_signed_drop_bit_iff bit_drop_bit_eq)
qed

lemma ts_byte:
  assumes "k \<le> 56"
  shows "unat (ucast (signed_drop_bit k (now :: 64 word)) :: byte) = (unat now div 2 ^ k) mod 256"
proof -
  have "unat (ucast (drop_bit k now) :: byte) = take_bit 8 (unat (drop_bit k now))"
    by (simp add: unsigned_ucast_eq)
  also have "\<dots> = unat (drop_bit k now) mod 2 ^ 8" by (rule take_bit_eq_mod)
  also have "unat (drop_bit k now) = drop_bit k (unat now)" by (rule unat_drop_bit_eq)
  also have "\<dots> = unat now div 2 ^ k" by (rule drop_bit_eq_div)
  finally show ?thesis by (simp add: ts_byte_ucast [OF assms])
qed

lemma version1_byte:
  "drop_bit 4 (((x::byte) AND 0x0f) OR 0x10) = 1"
  "unat (((x::byte) AND 0x0f) OR 0x10) mod 16 = unat x mod 16"
  "unat (((x::byte) AND 0x0f) OR 0x10) div 16 = 1"
proof -
  have "\<forall>x\<in>set (map of_nat [0..<256]).
          drop_bit 4 (((x::byte) AND 0x0f) OR 0x10) = 1 \<and>
          unat ((x AND 0x0f) OR 0x10) mod 16 = unat x mod 16 \<and>
          unat ((x AND 0x0f) OR 0x10) div 16 = 1"
    by code_simp
  from byte_all [of "\<lambda>x. drop_bit 4 ((x AND 0x0f) OR 0x10) = 1 \<and>
          unat ((x AND 0x0f) OR 0x10) mod 16 = unat x mod 16 \<and>
          unat ((x AND 0x0f) OR 0x10) div 16 = 1", OF this]
  show "drop_bit 4 (((x::byte) AND 0x0f) OR 0x10) = 1"
    "unat (((x::byte) AND 0x0f) OR 0x10) mod 16 = unat x mod 16"
    "unat (((x::byte) AND 0x0f) OR 0x10) div 16 = 1"
    by simp_all
qed

lemma variant_byte_unat:
  "unat (((x::byte) AND 0x3f) OR 0x80) div 64 = 2"
  "unat (((x::byte) AND 0x3f) OR 0x80) mod 64 = unat x mod 64"
proof -
  have "\<forall>x\<in>set (map of_nat [0..<256]).
          unat (((x::byte) AND 0x3f) OR 0x80) div 64 = 2 \<and>
          unat ((x AND 0x3f) OR 0x80) mod 64 = unat x mod 64"
    by code_simp
  from byte_all [of "\<lambda>x. unat ((x AND 0x3f) OR 0x80) div 64 = 2 \<and>
          unat ((x AND 0x3f) OR 0x80) mod 64 = unat x mod 64", OF this]
  show "unat (((x::byte) AND 0x3f) OR 0x80) div 64 = 2"
    "unat (((x::byte) AND 0x3f) OR 0x80) mod 64 = unat x mod 64"
    by simp_all
qed

lemma ts_byte0: "unat (ucast (now :: 64 word) :: byte) = unat now mod 256"
  using ts_byte [of 0 now] by simp

text \<open>
  C6: whenever the random source fills the 16-byte buffer with \<open>r\<close> and reports no
  error, for every timestamp \<open>now\<close> the time-based strategy returns without error a value
  whose bytes 0 to 5 are the low 48 bits of the timestamp, least significant byte first;
  whose byte 6 has bits 48 to 51 of the timestamp as low nibble and the time-based tag 1 as
  high nibble, so the version is \<open>VersionTimeBased\<close>; whose byte 8 has top two bits
  \<open>10\<close>, so the variant is \<open>VariantRFC4122\<close>, and the low six bits of \<open>r\<close>; and whose
  bytes 7 and 9 to 15 are those of \<open>r\<close>. The timestamp is read as the unsigned value of
  its 64 bits.
\<close>

theorem generateV1_spec:
  assumes rd: "rand_Read Nil_UUID = (r, None)" and len: "length r = 16"
  shows "\<exists>u. generateV1 rand_Read now = (u, None) \<and> NewV1 rand_Read now = (u, None) \<and>
           length u = 16 \<and>
           (\<forall>i<6. unat (u ! i) = (unat now div 2 ^ (8 * i)) mod 256) \<and>
           unat (u ! 6) mod 16 = (unat now div 2 ^ 48) mod 16 \<and>
           unat (u ! 6) div 16 = 1 \<and> Version u = VersionTimeBased \<and>
           unat (u ! 8) div 64 = 2 \<and> Variant u = VariantRFC4122 \<and>
           unat (u ! 8) mod 64 = unat (r ! 8) mod 64 \<and>
           (\<forall>i<16. 6 < i \<and> i \<noteq> 8 \<longrightarrow> u ! i = r ! i)"
proof -
  let ?b6 = "(ucast (signed_drop_bit 48 now) AND 0x0f) OR 0x10 :: byte"
  let ?b8 = "(r ! 8 AND 0x3f) OR 0x80"
  let ?u = "r[0 := ucast now, 1 := ucast (signed_drop_bit 8 now),
      2 := ucast (signed_drop_bit 16 now), 3 := ucast (signed_drop_bit 24 now),
      4 := ucast (signed_drop_bit 32 now), 5 := ucast (signed_drop_bit 40 now),
      6 := ?b6, 8 := ?b8]"
  have g: "generateV1 rand_Read now = (?u, None)"
    using rd len by (simp add: generateV1_def Let_def)
  have lu: "length ?u = 16" using len by simp
  have u0: "?u ! 0 = ucast now" and u1: "?u ! 1 = ucast (signed_drop_bit 8 now)"
    and u2: "?u ! 2 = ucast (signed_drop_bit 16 now)"
    and u3: "?u ! 3 = ucast (signed_drop_bit 24 now)"
    and u4: "?u ! 4 = ucast (signed_drop_bit 32 now)"
    and u5: "?u ! 5 = ucast (signed_drop_bit 40 now)"
    and u6: "?u ! 6 = ?b6" and u8: "?u ! 8 = ?b8"
    using len by simp_all
  have low: "unat (?u ! i) = (unat now div 2 ^ (8 * i)) mod 256" if "i < 6" for i
  proof -
    from that consider "i = 0" | "i = 1" | "i = 2" | "i = 3" | "i = 4" | "i = 5" by arith
    then show ?thesis
    proof cases
      case 1 then show ?thesis unfolding 1 u0 by (simp add: ts_byte0)
    next
      case 2 then show ?thesis unfolding 2 u1 by (simp add: ts_byte)
    next
      case 3 then show ?thesis unfolding 3 u2 by (simp add: ts_byte)
    next
      case 4 then show ?thesis unfolding 4 u3 by (simp add: ts_byte)
    next
      case 5 then show ?thesis unfolding 5 u4 by (simp add: ts_byte)
    next
      case 6 then show ?thesis unfolding 6 u5 by (simp add: ts_byte)
    qed
  qed
  have "unat ?b6 mod 16 = unat (ucast (signed_drop_bit 48 now) :: byte) mod 16"
    by (rule version1_byte(2))
  also have "\<dots> = ((unat now div 2 ^ 48) mod 256) mod 16" by (simp add: ts_byte)
  also have "\<dots> = (unat now div 2 ^ 48) mod 16" by (simp add: mod_mod_cancel)
  finally have n6: "unat (?u ! 6) mod 16 = (unat now div 2 ^ 48) mod 16" unfolding u6 .
  have h6: "unat (?u ! 6) div 16 = 1" unfolding u6 by (rule version1_byte(3))
  have ver: "Version ?u = VersionTimeBased"
    unfolding Version_def u6 VersionTimeBased_def by (rule version1_byte(1))
  have h8: "unat (?u ! 8) div 64 = 2" unfolding u8 by (rule variant_byte_unat(1))
  have l8: "unat (?u ! 8) mod 64 = unat (r ! 8) mod 64" unfolding u8 by (rule variant_byte_unat(2))
  have var: "Variant ?u = VariantRFC4122"
    unfolding Variant_def u8 by (simp add: variant_byte)
  have rest: "?u ! i = r ! i" if "6 < i" "i \<noteq> 8" for i
    using that by simp
  have "NewV1 rand_Read now = (?u, None)" by (simp add: NewV1_def g)
  then show ?thesis using g lu low n6 h6 ver h8 var l8 rest by blast
qed

theorem generateV1_spec_witness:
  "\<exists>u. generateV1 (\<lambda>b. (map (\<lambda>_. 0xff) b, None)) 0x123456789abcdef0 = (u, None) \<and>
        unat (u ! 0) = 0xf0 \<and> unat (u ! 5) = 0x56 \<and> unat (u ! 6) mod 16 = 4 \<and>
        Version u = VersionTimeBased \<and> Variant u = VariantRFC4122 \<and> u ! 15 = 0xff"
proof -
  have rd: "(\<lambda>b. (map (\<lambda>_. 0xff :: byte) b, None :: error option)) Nil_UUID
              = (replicate 16 0xff, None)"
    by (simp add: Nil_UUID_def)
  have len: "length (replicate 16 (0xff :: byte)) = 16" by simp
  from generateV1_spec [of "\<lambda>b. (map (\<lambda>_. 0xff) b, None)" "replicate 16 0xff"
      "0x123456789abcdef0", OF rd len]
  obtain u where u: "generateV1 (\<lambda>b. (map (\<lambda>_. 0xff) b, None)) 0x123456789abcdef0 = (u, None)"
    "\<forall>i<6. unat (u ! i) = (unat (0x123456789abcdef0 :: 64 word) div 2 ^ (8 * i)) mod 256"
    "unat (u ! 6) mod 16 = (unat (0x123456789abcdef0 :: 64 word) div 2 ^ 48) mod 16"
    "Version u = VersionTimeBased" "Variant u = VariantRFC4122"
    "\<forall>i<16. 6 < i \<and> i \<noteq> 8 \<longrightarrow> u ! i = replicate 16 (0xff :: byte) ! i"
    by blast
  from u(2) have "unat (u ! 0) = (unat (0x123456789abcdef0 :: 64 word) div 2 ^ (8 * 0)) mod 256"
    "unat (u ! 5) = (unat (0x123456789abcdef0 :: 64 word) div 2 ^ (8 * 5)) mod 256"
    by simp_all
  then have a: "unat (u ! 0) = 0xf0" "unat (u ! 5) = 0x56" by simp_all
  from u(3) have b: "unat (u ! 6) mod 16 = 4" by simp
  from u(6) have c: "u ! 15 = 0xff" by simp
  from u(1,4,5) a b c show ?thesis by blast
qed

section \<open>Ordering\<close>

lemma Compare_from_done: "16 \<le> i \<Longrightarrow> Compare_from i u v = 0"
  by simp

lemma Compare_from_step:
  "i < 16 \<Longrightarrow> Compare_from i u v =
     (if u ! i < v ! i then - 1 else if v ! i < u ! i then 1 else Compare_from (Suc i) u v)"
  by simp

declare Compare_from.simps [simp del]

lemma Compare_from_range: "Compare_from i u v \<in> {- 1, 0, 1}"
proof (induction "16 - i" arbitrary: i)
  case 0
  then show ?case by (simp add: Compare_from_done)
next
  case (Suc n)
  then have i: "i < 16" and n: "n = 16 - Suc i" by simp_all
  from Suc.hyps(1) [OF n] show ?case by (simp add: Compare_from_step [OF i])
qed

lemma Compare_from_neg: "Compare_from i v u = - Compare_from i u v"
proof (induction "16 - i" arbitrary: i)
  case 0
  then show ?case by (simp add: Compare_from_done)
next
  case (Suc n)
  then have i: "i < 16" and n: "n = 16 - Suc i" by simp_all
  from Suc.hyps(1) [OF n] show ?case by (auto simp: Compare_from_step [OF i])
qed

lemma Compare_from_zero:
  "Compare_from i u v = 0 \<longleftrightarrow> (\<forall>j. i \<le> j \<and> j < 16 \<longrightarrow> u ! j = v ! j)"
proof (induction "16 - i" arbitrary: i)
  case 0
  then show ?case by (auto simp: Compare_from_done)
next
  case (Suc n)
  then have i: "i < 16" and n: "n = 16 - Suc i" by simp_all
  have split: "(\<forall>j. i \<le> j \<and> j < 16 \<longrightarrow> u ! j = v ! j)
      \<longleftrightarrow> u ! i = v ! i \<and> (\<forall>j. Suc i \<le> j \<and> j < 16 \<longrightarrow> u ! j = v ! j)"
    using i by (metis Suc_leI le_neq_implies_less order_refl Suc_leD)
  from Suc.hyps(1) [OF n] show ?case
    unfolding split by (auto simp: Compare_from_step [OF i])
qed

lemma Compare_from_less:
  "Compare_from i u v = - 1 \<longleftrightarrow>
     (\<exists>k. i \<le> k \<and> k < 16 \<and> u ! k < v ! k \<and> (\<forall>j. i \<le> j \<and> j < k \<longrightarrow> u ! j = v ! j))"
proof (induction "16 - i" arbitrary: i)
  case 0
  then show ?case by (simp add: Compare_from_done)
next
  case (Suc n)
  then have i: "i < 16" and n: "n = 16 - Suc i" by simp_all
  note ih = Suc.hyps(1) [OF n]
  show ?case
  proof (cases "u ! i < v ! i")
    case True
    then have "i \<le> i \<and> i < 16 \<and> u ! i < v ! i \<and> (\<forall>j. i \<le> j \<and> j < i \<longrightarrow> u ! j = v ! j)"
      using i by auto
    then have "\<exists>k. i \<le> k \<and> k < 16 \<and> u ! k < v ! k \<and> (\<forall>j. i \<le> j \<and> j < k \<longrightarrow> u ! j = v ! j)"
      by blast
    then show ?thesis using True by (simp add: Compare_from_step [OF i])
  next
    case nlt: False
    show ?thesis
    proof (cases "v ! i < u ! i")
      case True
      have "\<not> (\<exists>k. i \<le> k \<and> k < 16 \<and> u ! k < v ! k \<and> (\<forall>j. i \<le> j \<and> j < k \<longrightarrow> u ! j = v ! j))"
      proof
        assume "\<exists>k. i \<le> k \<and> k < 16 \<and> u ! k < v ! k \<and> (\<forall>j. i \<le> j \<and> j < k \<longrightarrow> u ! j = v ! j)"
        then obtain k where k: "i \<le> k" "u ! k < v ! k" "\<forall>j. i \<le> j \<and> j < k \<longrightarrow> u ! j = v ! j"
          by blast
        show False
        proof (cases "k = i")
          case True
          with k nlt show False by simp
        next
          case False
          with k(1) have "i < k" by simp
          with k(3) have "u ! i = v ! i" by simp
          with True show False by simp
        qed
      qed
      then show ?thesis using True nlt by (simp add: Compare_from_step [OF i])
    next
      case False
      with nlt have eq: "u ! i = v ! i" by simp
      have "(\<exists>k. i \<le> k \<and> k < 16 \<and> u ! k < v ! k \<and> (\<forall>j. i \<le> j \<and> j < k \<longrightarrow> u ! j = v ! j))
          \<longleftrightarrow> (\<exists>k. Suc i \<le> k \<and> k < 16 \<and> u ! k < v ! k \<and> (\<forall>j. Suc i \<le> j \<and> j < k \<longrightarrow> u ! j = v ! j))"
        (is "?L \<longleftrightarrow> ?R")
      proof
        assume ?L
        then obtain k where k: "i \<le> k" "k < 16" "u ! k < v ! k"
          "\<forall>j. i \<le> j \<and> j < k \<longrightarrow> u ! j = v ! j" by blast
        from k(3) eq have "k \<noteq> i" by auto
        with k(1) have "Suc i \<le> k" by simp
        moreover from k(4) have "\<forall>j. Suc i \<le> j \<and> j < k \<longrightarrow> u ! j = v ! j" by simp
        ultimately show ?R using k(2,3) by blast
      next
        assume ?R
        then obtain k where k: "Suc i \<le> k" "k < 16" "u ! k < v ! k"
          "\<forall>j. Suc i \<le> j \<and> j < k \<longrightarrow> u ! j = v ! j" by blast
        have "u ! j = v ! j" if "i \<le> j" "j < k" for j
        proof (cases "j = i")
          case True
          then show ?thesis using eq by simp
        next
          case False
          with that k(4) show ?thesis by simp
        qed
        with k(1,2,3) have "i \<le> k \<and> k < 16 \<and> u ! k < v ! k \<and> (\<forall>j. i \<le> j \<and> j < k \<longrightarrow> u ! j = v ! j)"
          by simp
        then show ?L by blast
      qed
      then show ?thesis using eq ih by (simp add: Compare_from_step [OF i])
    qed
  qed
qed

lemma Compare_from_trans:
  "Compare_from i u v \<le> 0 \<Longrightarrow> Compare_from i v w \<le> 0 \<Longrightarrow> Compare_from i u w \<le> 0"
proof (induction "16 - i" arbitrary: i)
  case 0
  then show ?case by (simp add: Compare_from_done)
next
  case (Suc n)
  then have i: "i < 16" and n: "n = 16 - Suc i" by simp_all
  note ih = Suc.hyps(1) [OF n]
  from Suc.prems have uv: "u ! i \<le> v ! i" and vw: "v ! i \<le> w ! i"
    by (auto simp: Compare_from_step [OF i] split: if_splits)
  show ?case
  proof (cases "u ! i < w ! i")
    case True
    then show ?thesis by (simp add: Compare_from_step [OF i])
  next
    case False
    with uv vw have e: "u ! i = v ! i" "v ! i = w ! i" by auto
    with Suc.prems have "Compare_from (Suc i) u v \<le> 0" "Compare_from (Suc i) v w \<le> 0"
      by (simp_all add: Compare_from_step [OF i])
    from ih [OF this] show ?thesis using e by (simp add: Compare_from_step [OF i])
  qed
qed

text \<open>
  C9: on 16-byte values \<open>Compare\<close> returns \<open>- 1\<close>, \<open>0\<close> or \<open>1\<close> and is the lexicographic
  order of the bytes read left to right as unsigned numbers: \<open>- 1\<close> exactly when the
  first differing byte is smaller in \<open>u\<close>, \<open>1\<close> exactly when it is greater. It is a
  total order: the result is \<open>0\<close> exactly for equal values, swapping the arguments
  negates the result, and \<open>Compare u v \<le> 0\<close> is transitive.
\<close>

theorem Compare_total_order:
  assumes "length u = 16" "length v = 16" "length w = 16"
  shows "Compare u v \<in> {- 1, 0, 1} \<and>
    (Compare u v = - 1 \<longleftrightarrow> (\<exists>k<16. u ! k < v ! k \<and> (\<forall>j<k. u ! j = v ! j))) \<and>
    (Compare u v = 1 \<longleftrightarrow> (\<exists>k<16. v ! k < u ! k \<and> (\<forall>j<k. u ! j = v ! j))) \<and>
    (Compare u v = 0 \<longleftrightarrow> u = v) \<and>
    Compare u v = - Compare v u \<and>
    (Compare u v \<le> 0 \<and> Compare v w \<le> 0 \<longrightarrow> Compare u w \<le> 0)"
proof -
  have range: "Compare u v \<in> {- 1, 0, 1}"
    unfolding Compare_def by (rule Compare_from_range)
  have less: "Compare u v = - 1 \<longleftrightarrow> (\<exists>k<16. u ! k < v ! k \<and> (\<forall>j<k. u ! j = v ! j))"
    unfolding Compare_def Compare_from_less by simp
  have neg: "Compare u v = - Compare v u"
    unfolding Compare_def by (rule Compare_from_neg)
  have "Compare u v = 1 \<longleftrightarrow> Compare_from 0 v u = - 1"
    unfolding Compare_def Compare_from_neg [of 0 u v] by simp
  also have "\<dots> \<longleftrightarrow> (\<exists>k<16. v ! k < u ! k \<and> (\<forall>j<k. v ! j = u ! j))"
    unfolding Compare_from_less by simp
  also have "\<dots> \<longleftrightarrow> (\<exists>k<16. v ! k < u ! k \<and> (\<forall>j<k. u ! j = v ! j))"
    by (simp add: eq_commute)
  finally have greater:
    "Compare u v = 1 \<longleftrightarrow> (\<exists>k<16. v ! k < u ! k \<and> (\<forall>j<k. u ! j = v ! j))" .
  have "Compare u v = 0 \<longleftrightarrow> (\<forall>j<16. u ! j = v ! j)"
    unfolding Compare_def Compare_from_zero by simp
  also have "\<dots> \<longleftrightarrow> u = v"
    using assms(1,2) by (simp add: list_eq_iff_nth_eq)
  finally have zero: "Compare u v = 0 \<longleftrightarrow> u = v" .
  have trans: "Compare u v \<le> 0 \<and> Compare v w \<le> 0 \<longrightarrow> Compare u w \<le> 0"
    unfolding Compare_def using Compare_from_trans [of 0 u v w] by blast
  from range less greater zero neg trans show ?thesis by blast
qed

theorem Compare_total_order_witness:
  "Compare (replicate 15 0 @ [1]) (replicate 15 0 @ [2]) = - 1 \<and>
   Compare (replicate 15 0 @ [2]) (replicate 15 0 @ [1]) = 1 \<and>
   Compare (replicate 15 0 @ [1]) (0xff # replicate 15 0) \<le> 0"
proof -
  let ?a = "replicate 15 0 @ [1 :: byte]" and ?b = "replicate 15 0 @ [2 :: byte]"
  and ?c = "0xff # replicate 15 (0 :: byte)"
  have l: "length ?a = 16" "length ?b = 16" "length ?c = 16" by simp_all
  note abc = Compare_total_order [OF l(1) l(2) l(3)]
  note bcc = Compare_total_order [OF l(2) l(3) l(3)]
  have "(15 :: nat) < 16 \<and> ?a ! 15 < ?b ! 15 \<and> (\<forall>j<15. ?a ! j = ?b ! j)"
    by (simp add: nth_append)
  then have "\<exists>k<16. ?a ! k < ?b ! k \<and> (\<forall>j<k. ?a ! j = ?b ! j)" by (rule exI)
  with abc [THEN conjunct2, THEN conjunct1] have 1: "Compare ?a ?b = - 1" by (rule iffD2)
  from abc [THEN conjunct2, THEN conjunct2, THEN conjunct2, THEN conjunct2, THEN conjunct1] 1
  have 2: "Compare ?b ?a = 1" by simp
  have "(0 :: nat) < 16 \<and> ?b ! 0 < ?c ! 0 \<and> (\<forall>j<0. ?b ! j = ?c ! j)"
    by (simp add: nth_append)
  then have "\<exists>k<16. ?b ! k < ?c ! k \<and> (\<forall>j<k. ?b ! j = ?c ! j)" by (rule exI)
  with bcc [THEN conjunct2, THEN conjunct1] have 3: "Compare ?b ?c = - 1" by (rule iffD2)
  from 1 3 have "Compare ?a ?b \<le> 0 \<and> Compare ?b ?c \<le> 0" by simp
  with abc [THEN conjunct2, THEN conjunct2, THEN conjunct2, THEN conjunct2, THEN conjunct2]
  have "Compare ?a ?c \<le> 0" by (rule mp)
  with 1 2 show ?thesis by (intro conjI)
qed

section \<open>The factory and failures of the random source\<close>

lemma generateV4_error:
  "rand_Read Nil_UUID = (b, Some e) \<Longrightarrow> generateV4 rand_Read = (b, Some e)"
  by (simp add: generateV4_def Let_def)

lemma generateV1_error:
  "rand_Read Nil_UUID = (b, Some e) \<Longrightarrow> generateV1 rand_Read now = (b, Some e)"
  by (simp add: generateV1_def Let_def)

lemma snd_generateV4: "snd (generateV4 rand_Read) = snd (rand_Read Nil_UUID)"
  by (cases "rand_Read Nil_UUID") (simp add: generateV4_def Let_def split: option.splits)

lemma snd_generateV1: "snd (generateV1 rand_Read now) = snd (rand_Read Nil_UUID)"
  by (cases "rand_Read Nil_UUID") (simp add: generateV1_def Let_def split: option.splits)

text \<open>
  C8: for every requested tag \<open>v\<close>, the generator made by \<open>NewGenerator v\<close> reports \<open>v\<close>
  as its version and its \<open>Generate\<close> is the random strategy for the random tag, the
  time-based strategy for the time-based tag, and the random strategy for every other tag;
  the tag itself never causes an error: the error of \<open>Generate\<close> is the error of the
  random source, whatever the tag.
\<close>

theorem NewGenerator_Generate:
  "Generator_Version (NewGenerator v) = v \<and>
   (v = VersionRandom \<longrightarrow> Generate (NewGenerator v) rand_Read now = generateV4 rand_Read) \<and>
   (v = VersionTimeBased \<longrightarrow>
      Generate (NewGenerator v) rand_Read now = generateV1 rand_Read now) \<and>
   (v \<noteq> VersionRandom \<and> v \<noteq> VersionTimeBased \<longrightarrow>
      Generate (NewGenerator v) rand_Read now = generateV4 rand_Read) \<and>
   snd (Generate (NewGenerator v) rand_Read now) = snd (rand_Read Nil_UUID)"
  by (simp add: Generator_Version_def NewGenerator_def Generate_def snd_generateV4 snd_generateV1
      VersionRandom_def VersionTimeBased_def)

theorem NewGenerator_Generate_witness:
  "Generate (NewGenerator 7) (\<lambda>b. (map (\<lambda>_. 0xff) b, None)) 0
     = generateV4 (\<lambda>b. (map (\<lambda>_. 0xff) b, None)) \<and>
   snd (Generate (NewGenerator 7) (\<lambda>b. (map (\<lambda>_. 0xff) b, None)) 0) = None \<and>
   Generate (NewGenerator VersionTimeBased) (\<lambda>b. (map (\<lambda>_. 0xff) b, None)) 0
     = generateV1 (\<lambda>b. (map (\<lambda>_. 0xff) b, None)) 0 \<and>
   Generate (NewGenerator VersionRandom) (\<lambda>b. (map (\<lambda>_. 0xff) b, None)) 0
     = generateV4 (\<lambda>b. (map (\<lambda>_. 0xff) b, None))"
proof -
  have n: "(7 :: byte) \<noteq> VersionRandom \<and> (7 :: byte) \<noteq> VersionTimeBased"
    by (simp add: VersionRandom_def VersionTimeBased_def)
  note g7 = NewGenerator_Generate [of 7 "\<lambda>b. (map (\<lambda>_. 0xff) b, None)" 0]
  note g1 = NewGenerator_Generate [of VersionTimeBased "\<lambda>b. (map (\<lambda>_. 0xff) b, None)" 0]
  note g4 = NewGenerator_Generate [of VersionRandom "\<lambda>b. (map (\<lambda>_. 0xff) b, None)" 0]
  from g7 n have a: "Generate (NewGenerator 7) (\<lambda>b. (map (\<lambda>_. 0xff) b, None)) 0
     = generateV4 (\<lambda>b. (map (\<lambda>_. 0xff) b, None))" by simp
  from g7 have b: "snd (Generate (NewGenerator 7) (\<lambda>b. (map (\<lambda>_. 0xff) b, None)) 0) = None"
    by simp
  from g1 have c: "Generate (NewGenerator VersionTimeBased) (\<lambda>b. (map (\<lambda>_. 0xff) b, None)) 0
     = generateV1 (\<lambda>b. (map (\<lambda>_. 0xff) b, None)) 0" by simp
  from g4 have d: "Generate (NewGenerator VersionRandom) (\<lambda>b. (map (\<lambda>_. 0xff) b, None)) 0
     = generateV4 (\<lambda>b. (map (\<lambda>_. 0xff) b, None))" by simp
  from a b c d show ?thesis by (intro conjI)
qed

lemma source_error_propagates:
  assumes "rand_Read Nil_UUID = (b, Some e)"
  shows "generateV4 rand_Read = (b, Some e) \<and> generateV1 rand_Read now = (b, Some e) \<and>
         NewV4 rand_Read = (b, Some e) \<and> NewV1 rand_Read now = (b, Some e) \<and>
         Generate (NewGenerator v) rand_Read now = (b, Some e) \<and>
         MustNew rand_Read = Panics e"
  using generateV4_error [of rand_Read b e, OF assms] generateV1_error [of rand_Read b e now, OF assms]
  by (simp add: NewV4_def NewV1_def Generate_def MustNew_def Must_def)

text \<open>
  C5 holds of every operation with an error result, and \<open>New\<close> breaks it. At a random
  source whose read fails without writing, \<open>NewV4\<close> returns the source's error and
  \<open>MustNew\<close> panics with it, while \<open>New\<close> drops it and returns the nil UUID, whose version
  tag is 0: not the random version-4 UUID that the comment on \<open>New\<close> announces and that
  \<open>TestNew\<close> and \<open>TestUUIDIsNil\<close> assert.
\<close>

theorem New_swallows_error:
  "generateV4 failing_source
     = (Nil_UUID, Some (ExternalError ''entropy source unavailable'')) \<and>
   NewV4 failing_source = (Nil_UUID, Some (ExternalError ''entropy source unavailable'')) \<and>
   MustNew failing_source = Panics (ExternalError ''entropy source unavailable'') \<and>
   New failing_source = Nil_UUID \<and>
   IsNil (New failing_source) \<and>
   Version (New failing_source) = VersionUnknown \<and>
   Version (New failing_source) \<noteq> VersionRandom"
  by (simp add: generateV4_def NewV4_def MustNew_def Must_def New_def failing_source_def
      IsNil_def Version_def Nil_UUID_def VersionUnknown_def VersionRandom_def)

section \<open>The adapters\<close>

lemma string_of_bytes_of_string: "string_of_bytes (bytes_of_string s) = s"
proof -
  have "char_of (unat (of_nat (of_char c) :: byte)) = c" for c
  proof -
    have "(of_char c :: nat) < 256" by simp
    then have "unat (of_nat (of_char c) :: byte) = of_char c"
      by (simp add: unat_of_nat)
    then show ?thesis by simp
  qed
  then show ?thesis
    by (simp add: string_of_bytes_def bytes_of_string_def map_idI)
qed

lemma copy_same_length: "length dst = length src \<Longrightarrow> copy dst src = src"
  by (simp add: copy_def)

text \<open>
  C4, as stated, fails on byte sequences whose length is not 16, which are neither nil,
  nor a string, nor an exact 16-byte sequence: the 36 bytes of a canonical text are parsed
  and accepted, and the empty byte sequence fails with the length error of \<open>Parse\<close>, which
  is no \<open>UnsupportedInputError\<close>.
\<close>

theorem Scan_accepts_text_bytes:
  "Scan Nil_UUID (BytesValue (bytes_of_string ''550e8400-e29b-41d4-a716-446655440000''))
     = ([0x55, 0x0e, 0x84, 0x00, 0xe2, 0x9b, 0x41, 0xd4, 0xa7, 0x16, 0x44, 0x66, 0x55, 0x44,
         0x00, 0x00], None) \<and>
   Scan Nil_UUID (BytesValue []) = (Nil_UUID, Some (InvalidUUIDLength 0)) \<and>
   \<not> is_UnsupportedInputError (InvalidUUIDLength 0)"
proof -
  have l: "length (bytes_of_string ''550e8400-e29b-41d4-a716-446655440000'') \<noteq> 16"
    by (simp add: bytes_of_string_def)
  have p: "Parse ''550e8400-e29b-41d4-a716-446655440000''
     = ([0x55, 0x0e, 0x84, 0x00, 0xe2, 0x9b, 0x41, 0xd4, 0xa7, 0x16, 0x44, 0x66, 0x55, 0x44,
         0x00, 0x00], None)"
    by (simp add: Parse_def ReplaceAll_empty_def fromHexChar_def copy_def Nil_UUID_def)
  have a: "Scan Nil_UUID (BytesValue (bytes_of_string ''550e8400-e29b-41d4-a716-446655440000''))
     = ([0x55, 0x0e, 0x84, 0x00, 0xe2, 0x9b, 0x41, 0xd4, 0xa7, 0x16, 0x44, 0x66, 0x55, 0x44,
         0x00, 0x00], None)"
    using l by (simp add: Scan_def string_of_bytes_of_string p)
  have b: "Scan Nil_UUID (BytesValue []) = (Nil_UUID, Some (InvalidUUIDLength 0))"
    by (simp add: Scan_def string_of_bytes_def Parse_def ReplaceAll_empty_def)
  from a b show ?thesis by simp
qed

text \<open>
  C4, amended: for a receiver \<open>u\<close>, \<open>Scan\<close> maps the nil input to the nil UUID without
  error; parses a string with \<open>Parse\<close>, storing the result on success and returning the
  error of \<open>Parse\<close> otherwise; copies a byte sequence of length 16 into the value; treats a
  byte sequence of any other length as the string of the same bytes; and fails on a value
  of any other dynamic type with the cannot-scan error naming that type, an
  \<open>UnsupportedInputError\<close>.
\<close>

theorem Scan_spec:
  assumes "length u = 16"
  shows "Scan u NilValue = (Nil_UUID, None) \<and>
    (snd (Parse s) = None \<longrightarrow> Scan u (StringValue s) = (fst (Parse s), None)) \<and>
    (\<forall>e. snd (Parse s) = Some e \<longrightarrow> Scan u (StringValue s) = (u, Some e)) \<and>
    (length b = 16 \<longrightarrow> Scan u (BytesValue b) = (b, None)) \<and>
    (length b \<noteq> 16 \<longrightarrow> Scan u (BytesValue b) = Scan u (StringValue (string_of_bytes b))) \<and>
    Scan u (OtherValue t) = (u, Some (CannotScan t)) \<and>
    is_UnsupportedInputError (CannotScan t)"
proof -
  have nil: "Scan u NilValue = (Nil_UUID, None)" by (simp add: Scan_def)
  have ok: "snd (Parse s) = None \<longrightarrow> Scan u (StringValue s) = (fst (Parse s), None)"
    by (cases "Parse s") (simp add: Scan_def)
  have err: "\<forall>e. snd (Parse s) = Some e \<longrightarrow> Scan u (StringValue s) = (u, Some e)"
    by (cases "Parse s") (simp add: Scan_def)
  have b16: "length b = 16 \<longrightarrow> Scan u (BytesValue b) = (b, None)"
    using assms by (simp add: Scan_def copy_same_length)
  have bn: "length b \<noteq> 16 \<longrightarrow> Scan u (BytesValue b) = Scan u (StringValue (string_of_bytes b))"
    by (simp add: Scan_def)
  have other: "Scan u (OtherValue t) = (u, Some (CannotScan t))" by (simp add: Scan_def)
  from nil ok err b16 bn other show ?thesis by simp
qed

theorem Scan_spec_witness:
  "Scan (replicate 16 7) NilValue = (Nil_UUID, None) \<and>
   Scan (replicate 16 7) (BytesValue (replicate 16 9)) = (replicate 16 9, None) \<and>
   Scan (replicate 16 7) (BytesValue []) = Scan (replicate 16 7) (StringValue []) \<and>
   Scan (replicate 16 7) (StringValue ''zz'') = (replicate 16 7, Some (InvalidUUIDLength 2)) \<and>
   Scan (replicate 16 7) (OtherValue ''int'') = (replicate 16 7, Some (CannotScan ''int''))"
proof -
  have l: "length (replicate 16 (7 :: byte)) = 16" by simp
  have p: "snd (Parse ''zz'') = Some (InvalidUUIDLength 2)"
    by (simp add: Parse_def ReplaceAll_empty_def)
  note s1 = Scan_spec [OF l, of "''zz''" "replicate 16 9" "''int''"]
  note s2 = Scan_spec [OF l, of "''zz''" "[]" "''int''"]
  from s1 have a: "Scan (replicate 16 7) NilValue = (Nil_UUID, None)" by (rule conjunct1)
  from s1 have b: "Scan (replicate 16 7) (BytesValue (replicate 16 9)) = (replicate 16 9, None)"
    by simp
  from s2 have c: "Scan (replicate 16 7) (BytesValue []) = Scan (replicate 16 7) (StringValue [])"
    by (simp add: string_of_bytes_def)
  from s1 p have d: "Scan (replicate 16 7) (StringValue ''zz'')
      = (replicate 16 7, Some (InvalidUUIDLength 2))" by simp
  from s1 have e: "Scan (replicate 16 7) (OtherValue ''int'')
      = (replicate 16 7, Some (CannotScan ''int''))" by simp
  from a b c d e show ?thesis by (intro conjI)
qed

text \<open>
  C10: for every receiver value \<open>u\<close> and every input, whenever \<open>UnmarshalJSON\<close> (for any
  behaviour of the JSON decoder), \<open>UnmarshalText\<close> or \<open>Scan\<close> returns an error, the receiver
  still holds \<open>u\<close>.
\<close>

theorem receiver_unchanged_on_error:
  "(snd (UnmarshalJSON json_Unmarshal u data) \<noteq> None \<longrightarrow>
      fst (UnmarshalJSON json_Unmarshal u data) = u) \<and>
   (snd (UnmarshalText u txt) \<noteq> None \<longrightarrow> fst (UnmarshalText u txt) = u) \<and>
   (snd (Scan u val) \<noteq> None \<longrightarrow> fst (Scan u val) = u)"
proof -
  have j: "snd (UnmarshalJSON json_Unmarshal u data) \<noteq> None \<longrightarrow>
      fst (UnmarshalJSON json_Unmarshal u data) = u"
    by (simp add: UnmarshalJSON_def split: prod.splits option.splits)
  have t: "snd (UnmarshalText u txt) \<noteq> None \<longrightarrow> fst (UnmarshalText u txt) = u"
    by (simp add: UnmarshalText_def split: prod.splits option.splits)
  have s: "snd (Scan u val) \<noteq> None \<longrightarrow> fst (Scan u val) = u"
    by (simp add: Scan_def split: scan_value.splits prod.splits option.splits)
  from j t s show ?thesis by (intro conjI)
qed

theorem receiver_unchanged_on_error_witness:
  "UnmarshalJSON (\<lambda>d. ([], Some (ExternalError ''unexpected end of JSON input'')))
      (replicate 16 7) [] =
      (replicate 16 7, Some (ExternalError ''unexpected end of JSON input'')) \<and>
   UnmarshalJSON (\<lambda>d. (''zz'', None)) (replicate 16 7) [] =
      (replicate 16 7, Some (InvalidUUIDLength 2)) \<and>
   UnmarshalText (replicate 16 7) (bytes_of_string ''z'') = (replicate 16 7, Some (InvalidUUIDLength 1)) \<and>
   Scan (replicate 16 7) (BytesValue (bytes_of_string ''z'')) = (replicate 16 7, Some (InvalidUUIDLength 1)) \<and>
   Scan (replicate 16 7) (OtherValue ''int'') = (replicate 16 7, Some (CannotScan ''int''))"
proof -
  let ?u = "replicate 16 (7 :: byte)"
  let ?d1 = "\<lambda>d :: byte list. ([] :: string, Some (ExternalError ''unexpected end of JSON input''))"
  let ?d2 = "\<lambda>d :: byte list. (''zz'', None :: error option)"
  have pz: "Parse ''zz'' = (Nil_UUID, Some (InvalidUUIDLength 2))"
    by (simp add: Parse_def ReplaceAll_empty_def)
  have p1: "Parse (string_of_bytes (bytes_of_string ''z'')) = (Nil_UUID, Some (InvalidUUIDLength 1))"
    by (simp add: Parse_def ReplaceAll_empty_def string_of_bytes_of_string)
  have lz: "length (bytes_of_string ''z'') \<noteq> 16" by (simp add: bytes_of_string_def)
  have e1: "snd (UnmarshalJSON ?d1 ?u []) = Some (ExternalError ''unexpected end of JSON input'')"
    by (simp add: UnmarshalJSON_def)
  have e2: "snd (UnmarshalJSON ?d2 ?u []) = Some (InvalidUUIDLength 2)"
    by (simp add: UnmarshalJSON_def pz)
  have e3: "snd (UnmarshalText ?u (bytes_of_string ''z'')) = Some (InvalidUUIDLength 1)"
    by (simp add: UnmarshalText_def p1)
  have e4: "snd (Scan ?u (BytesValue (bytes_of_string ''z''))) = Some (InvalidUUIDLength 1)"
    using lz by (simp add: Scan_def p1)
  have e5: "snd (Scan ?u (OtherValue ''int'')) = Some (CannotScan ''int'')"
    by (simp add: Scan_def)
  from receiver_unchanged_on_error [of ?d1 ?u "[]" "bytes_of_string ''z''" "BytesValue (bytes_of_string ''z'')"] e1 e3 e4
  have f: "fst (UnmarshalJSON ?d1 ?u []) = ?u" "fst (UnmarshalText ?u (bytes_of_string ''z'')) = ?u"
    "fst (Scan ?u (BytesValue (bytes_of_string ''z''))) = ?u" by simp_all
  from receiver_unchanged_on_error [of ?d2 ?u "[]" "bytes_of_string ''z''" "OtherValue ''int''"] e2 e5
  have g: "fst (UnmarshalJSON ?d2 ?u []) = ?u" "fst (Scan ?u (OtherValue ''int'')) = ?u"
    by simp_all
  from e1 f(1) have 1: "UnmarshalJSON ?d1 ?u [] = (?u, Some (ExternalError ''unexpected end of JSON input''))"
    by (simp add: prod_eq_iff)
  from e2 g(1) have 2: "UnmarshalJSON ?d2 ?u [] = (?u, Some (InvalidUUIDLength 2))"
    by (simp add: prod_eq_iff)
  from e3 f(2) have 3: "UnmarshalText ?u (bytes_of_string ''z'') = (?u, Some (InvalidUUIDLength 1))"
    by (simp add: prod_eq_iff)
  from e4 f(3) have 4: "Scan ?u (BytesValue (bytes_of_string ''z'')) = (?u, Some (InvalidUUIDLength 1))"
    by (simp add: prod_eq_iff)
  from e5 g(2) have 5: "Scan ?u (OtherValue ''int'') = (?u, Some (CannotScan ''int''))"
    by (simp add: prod_eq_iff)
  from 1 2 3 4 5 show ?thesis by (intro conjI)
qed

end
